theory Spec2Isabelle
  imports Main "HOL-Library.Word"
begin

section \<open>Memory model\<close>

text \<open>
  The repository is one C function, \<open>tee_secure_process\<close> in \<open>src/lib/tee_secure.c\<close>.
  It reads a NUL-terminated string through a pointer, allocates a buffer with \<open>malloc\<close>
  and writes the reversed string into it. The embedding keeps the pointers: memory is a
  list of objects (blocks), each a list of bytes, and a pointer is either the null pointer
  or a block index with a byte offset into that block. Reading or writing outside the
  block a pointer belongs to, or through the null pointer, is undefined behaviour in C;
  the model returns a \<open>fault\<close> there.
\<close>

type_synonym byte = "8 word"

text \<open>\<open>size_t\<close> of an LP64 platform: arithmetic on it wraps modulo \<open>2 ^ 64\<close>.\<close>

type_synonym size_t = "64 word"

type_synonym heap = "byte list list"

datatype ptr = Null | Ptr nat nat

datatype fault = NullDeref | OutOfBounds

text \<open>\<open>load h p k\<close> is the read \<open>p[k]\<close>, \<open>store h p k v\<close> the write \<open>p[k] = v\<close>.\<close>

definition load :: "heap \<Rightarrow> ptr \<Rightarrow> nat \<Rightarrow> fault + byte" where
  "load h p k =
     (case p of
        Null \<Rightarrow> Inl NullDeref
      | Ptr b off \<Rightarrow>
          if b < length h \<and> off + k < length (h ! b) then Inr (h ! b ! (off + k))
          else Inl OutOfBounds)"

definition store :: "heap \<Rightarrow> ptr \<Rightarrow> nat \<Rightarrow> byte \<Rightarrow> fault + heap" where
  "store h p k v =
     (case p of
        Null \<Rightarrow> Inl NullDeref
      | Ptr b off \<Rightarrow>
          if b < length h \<and> off + k < length (h ! b)
          then Inr (h[b := (h ! b)[off + k := v]])
          else Inl OutOfBounds)"

text \<open>
  No C object is larger than \<open>SIZE_MAX\<close> bytes. The function relies on it: a string
  that fits in an object has a length that fits in \<open>size_t\<close>, with room for \<open>len + 1\<close>.
\<close>

definition SIZE_MAX :: nat where
  "SIZE_MAX = 2 ^ 64 - 1"

definition heap_ok :: "heap \<Rightarrow> bool" where
  "heap_ok h = list_all (\<lambda>blk. length blk \<le> SIZE_MAX) h"

section \<open>The C library functions the source calls\<close>

text \<open>
  \<open>strlen\<close> and \<open>malloc\<close> belong to the C library, not to the repository; they are
  modelled after the C standard.

  \<open>strlen(p)\<close> is the number of bytes before the first NUL byte, scanning from \<open>p\<close>
  inside the object \<open>p\<close> points into. Without a NUL before the end of the object the scan
  leaves the object: undefined behaviour.
\<close>

fun first_nul :: "byte list \<Rightarrow> nat option" where
  "first_nul [] = None"
| "first_nul (c # cs) = (if c = 0 then Some 0 else map_option Suc (first_nul cs))"

definition strlen :: "heap \<Rightarrow> ptr \<Rightarrow> fault + size_t" where
  "strlen h p =
     (case p of
        Null \<Rightarrow> Inl NullDeref
      | Ptr b off \<Rightarrow>
          if b < length h then
            (case first_nul (drop off (h ! b)) of
               None \<Rightarrow> Inl OutOfBounds
             | Some n \<Rightarrow> Inr (word_of_nat n))
          else Inl OutOfBounds)"

text \<open>
  \<open>malloc(n)\<close> either fails and returns the null pointer, leaving memory as it is, or
  returns a pointer to the start of a new object of \<open>n\<close> bytes that is disjoint from
  every object that exists: here a new block at the end of the list. Which of the two
  happens, and what the new object holds at first (its content is indeterminate), is
  not decided by the program; both are the parameter \<open>env\<close>: \<open>None\<close> for failure,
  \<open>Some init\<close> for success with \<open>init i\<close> the first content of byte \<open>i\<close>.
\<close>

definition malloc :: "(nat \<Rightarrow> byte) option \<Rightarrow> heap \<Rightarrow> size_t \<Rightarrow> ptr \<times> heap" where
  "malloc env h n =
     (case env of
        None \<Rightarrow> (Null, h)
      | Some init \<Rightarrow> (Ptr (length h) 0, h @ [map init [0..<unat n]]))"

section \<open>The function\<close>

text \<open>
  The loop of lines 7 to 9:
  \<^verbatim>\<open>for (size_t i = 0; i < len; i++) { result[i] = input[len - 1 - i]; }\<close>
  The last argument counts the executions of the loop body; it is not a variable of the
  program and influences nothing.
\<close>

function copy_loop ::
  "ptr \<Rightarrow> ptr \<Rightarrow> size_t \<Rightarrow> size_t \<Rightarrow> heap \<Rightarrow> nat \<Rightarrow> fault + (heap \<times> nat)" where
  "copy_loop input result len i h iters =
     (if i < len then
        (case load h input (unat (len - 1 - i)) of
           Inl f \<Rightarrow> Inl f
         | Inr c \<Rightarrow>
             (case store h result (unat i) c of
                Inl f \<Rightarrow> Inl f
              | Inr h' \<Rightarrow> copy_loop input result len (i + 1) h' (Suc iters)))
      else Inr (h, iters))"
  by pat_completeness auto
termination
proof (relation "measure (\<lambda>(input, result, len, i, h, iters). unat len - unat i)")
  show "wf (measure (\<lambda>(input, result, len, i, h, iters). unat len - unat i))"
    by simp
next
  fix input result :: ptr and len i :: size_t and h h' :: heap and iters :: nat and c :: byte
  assume less: "i < len"
  then have "unat (i + 1) = Suc (unat i)"
    by unat_arith
  moreover from less have "unat i < unat len"
    by (simp add: word_less_nat_alt)
  ultimately show "((input, result, len, i + 1, h', Suc iters), (input, result, len, i, h, iters))
      \<in> measure (\<lambda>(input, result, len, i, h, iters). unat len - unat i)"
    by simp
qed

declare copy_loop.simps [simp del]

text \<open>
  The whole function. It returns the pointer it got from \<open>malloc\<close>; the model returns
  with it the memory after the call and the number of loop iterations. The result of
  \<open>malloc\<close> is used as it comes: the source has no test for the null pointer.
\<close>

definition tee_secure_process ::
  "(nat \<Rightarrow> byte) option \<Rightarrow> heap \<Rightarrow> ptr \<Rightarrow> fault + (ptr \<times> heap \<times> nat)" where
  "tee_secure_process env h input =
     (case strlen h input of
        Inl f \<Rightarrow> Inl f
      | Inr len \<Rightarrow>
          (case malloc env h (len + 1) of
             (result, h1) \<Rightarrow>
               (case copy_loop input result len 0 h1 0 of
                  Inl f \<Rightarrow> Inl f
                | Inr (h2, iters) \<Rightarrow>
                    (case store h2 result (unat len) 0 of
                       Inl f \<Rightarrow> Inl f
                     | Inr h3 \<Rightarrow> Inr (result, h3, iters)))))"

text \<open>
  How a caller reads a C string: the bytes from the pointer up to, and without, the
  first NUL of the object.
\<close>

definition c_string :: "heap \<Rightarrow> ptr \<Rightarrow> byte list option" where
  "c_string h p =
     (case p of
        Null \<Rightarrow> None
      | Ptr b off \<Rightarrow>
          if b < length h \<and> 0 \<in> set (drop off (h ! b))
          then Some (takeWhile (\<lambda>c. c \<noteq> 0) (drop off (h ! b)))
          else None)"

section \<open>Auxiliary facts\<close>

subsection \<open>Lengths and the first NUL\<close>

lemma unat_len_bound: "n \<le> SIZE_MAX \<Longrightarrow> unat (word_of_nat n :: size_t) = n"
  by (simp add: unat_of_nat SIZE_MAX_def)

lemma unat_len_succ: "Suc n \<le> SIZE_MAX \<Longrightarrow> unat (word_of_nat n + 1 :: size_t) = Suc n"
  by (simp add: unat_of_nat SIZE_MAX_def unat_word_ariths)

lemma first_nul_append: "0 \<notin> set s \<Longrightarrow> first_nul (s @ 0 # rest) = Some (length s)"
  by (induction s) auto

subsection \<open>Reads and writes of the function\<close>

lemma string_in_block:
  assumes "drop off blk = s @ 0 # rest"
  shows "off + Suc (length s) \<le> length blk"
proof -
  have "length (drop off blk) = length (s @ 0 # rest)"
    by (simp only: assms)
  then show ?thesis
    by simp
qed

lemma load_input:
  assumes "b < length h" and "drop off (h ! b) = s @ 0 # rest" and "j < length s"
  shows "load h (Ptr b off) j = Inr (s ! j)"
proof -
  from string_in_block [OF assms(2)] assms(3) have bound: "off + j < length (h ! b)"
    by simp
  then have "h ! b ! (off + j) = drop off (h ! b) ! j"
    by simp
  also have "\<dots> = s ! j"
    using assms(2,3) by (simp add: nth_append)
  finally show ?thesis
    using assms(1) bound by (simp add: load_def)
qed

lemma store_result:
  assumes "j < length blk"
  shows "store (h0 @ [blk]) (Ptr (length h0) 0) j v = Inr (h0 @ [blk[j := v]])"
  using assms by (simp add: store_def)

subsection \<open>The loop\<close>

lemma copy_loop_block:
  assumes "b < length h0" and "drop off (h0 ! b) = s @ 0 # rest"
    and "length s = unat len" and "length blk = Suc (unat len)" and "i \<le> len"
    and "n = unat len - unat i"
  shows "copy_loop (Ptr b off) (Ptr (length h0) 0) len i (h0 @ [blk]) k =
    Inr (h0 @ [take (unat i) blk @ rev (take n s) @ drop (unat len) blk], k + n)"
  using assms(4-6)
proof (induction n arbitrary: i blk k)
  case 0
  then have "unat i = unat len"
    by (simp add: word_le_nat_alt)
  then have "i = len"
    by (simp add: word_unat_eq_iff)
  then show ?case
    by (subst copy_loop.simps) simp
next
  case (Suc m)
  then have less: "i < len"
    by (simp add: word_less_nat_alt)
  then have next_i: "unat (i + 1) = Suc (unat i)"
    by unat_arith
  from less have idx: "unat (len - 1 - i) = unat len - 1 - unat i"
    by unat_arith
  from Suc.prems have m: "unat len - 1 - unat i = m" and ui: "unat i < unat len"
    by simp_all
  from m ui assms(3) have m_less: "m < length s"
    by simp
  let ?c = "s ! m"
  let ?blk = "blk[unat i := ?c]"
  have "load (h0 @ [blk]) (Ptr b off) m = Inr ?c"
    using assms(1,2) m_less by (intro load_input [where rest = rest]) (simp_all add: nth_append)
  then have ld: "load (h0 @ [blk]) (Ptr b off) (unat (len - 1 - i)) = Inr ?c"
    using idx m by simp
  have st: "store (h0 @ [blk]) (Ptr (length h0) 0) (unat i) ?c = Inr (h0 @ [?blk])"
    using store_result ui Suc.prems(1) by simp
  have ih: "copy_loop (Ptr b off) (Ptr (length h0) 0) len (i + 1) (h0 @ [?blk]) (Suc k) =
      Inr (h0 @ [take (unat (i + 1)) ?blk @ rev (take m s) @ drop (unat len) ?blk], Suc k + m)"
  proof (rule Suc.IH)
    show "length ?blk = Suc (unat len)"
      using Suc.prems(1) by simp
    show "i + 1 \<le> len"
      using less by (rule inc_le)
    show "m = unat len - unat (i + 1)"
      using next_i m by simp
  qed
  have "take (unat (i + 1)) ?blk = take (unat i) blk @ [?c]"
    using next_i ui Suc.prems(1) by (simp add: take_Suc_conv_app_nth)
  moreover have "drop (unat len) ?blk = drop (unat len) blk"
    using ui by simp
  moreover have "rev (take (Suc m) s) = ?c # rev (take m s)"
    using m_less by (simp add: take_Suc_conv_app_nth)
  ultimately have "take (unat (i + 1)) ?blk @ rev (take m s) @ drop (unat len) ?blk =
      take (unat i) blk @ rev (take (Suc m) s) @ drop (unat len) blk"
    by simp
  with ih ld st less show ?case
    by (subst copy_loop.simps) simp
qed

subsection \<open>The whole function\<close>

lemma block_bound:
  assumes "heap_ok h" and "b < length h" and "drop off (h ! b) = s @ 0 # rest"
  shows "Suc (length s) \<le> SIZE_MAX"
proof -
  from string_in_block [OF assms(3)] have "Suc (length s) \<le> length (h ! b)"
    by simp
  moreover from assms(1,2) have "length (h ! b) \<le> SIZE_MAX"
    by (simp add: heap_ok_def list_all_length)
  ultimately show ?thesis
    by simp
qed

lemma tee_secure_process_reverses:
  assumes "heap_ok h" and "b < length h" and "drop off (h ! b) = s @ 0 # rest"
    and "0 \<notin> set s"
  shows "tee_secure_process (Some init) h (Ptr b off) =
    Inr (Ptr (length h) 0, h @ [rev s @ [0]], length s)"
proof -
  define len :: size_t where "len = word_of_nat (length s)"
  define blk where "blk = map init [0..<unat (len + 1)]"
  from block_bound [OF assms(1-3)] have bound: "Suc (length s) \<le> SIZE_MAX" .
  then have ulen: "unat len = length s"
    by (simp add: len_def unat_len_bound)
  from bound have "unat (len + 1) = Suc (length s)"
    by (simp add: len_def unat_len_succ)
  then have blk_len: "length blk = Suc (unat len)"
    by (simp add: blk_def ulen)
  have sl: "strlen h (Ptr b off) = Inr len"
    using assms(2-4) by (simp add: strlen_def first_nul_append len_def)
  have ml: "malloc (Some init) h (len + 1) = (Ptr (length h) 0, h @ [blk])"
    by (simp add: malloc_def blk_def)
  have "copy_loop (Ptr b off) (Ptr (length h) 0) len 0 (h @ [blk]) 0 =
      Inr (h @ [take (unat (0 :: size_t)) blk @ rev (take (length s) s) @ drop (unat len) blk],
        0 + length s)"
    by (rule copy_loop_block [OF assms(2,3) _ blk_len]) (simp_all add: ulen)
  then have lp: "copy_loop (Ptr b off) (Ptr (length h) 0) len 0 (h @ [blk]) 0 =
      Inr (h @ [rev s @ drop (length s) blk], length s)"
    by (simp add: ulen)
  have "length (rev s @ drop (length s) blk) = Suc (length s)"
    using blk_len ulen by simp
  then have "(rev s @ drop (length s) blk)[length s := 0] = rev s @ [0]"
    by (cases "drop (length s) blk") (simp_all add: list_update_append)
  moreover have "store (h @ [rev s @ drop (length s) blk]) (Ptr (length h) 0) (length s) 0 =
      Inr (h @ [(rev s @ drop (length s) blk)[length s := 0]])"
    by (rule store_result) (simp add: blk_len ulen)
  ultimately have st: "store (h @ [rev s @ drop (length s) blk]) (Ptr (length h) 0) (unat len) 0 =
      Inr (h @ [rev s @ [0]])"
    by (simp add: ulen)
  show ?thesis
    by (simp add: tee_secure_process_def sl ml lp st)
qed

lemma tee_secure_process_no_memory:
  assumes "heap_ok h" and "b < length h" and "drop off (h ! b) = s @ 0 # rest"
    and "0 \<notin> set s"
  shows "tee_secure_process None h (Ptr b off) = Inl NullDeref"
proof -
  define len :: size_t where "len = word_of_nat (length s)"
  from block_bound [OF assms(1-3)] have ulen: "unat len = length s"
    by (simp add: len_def unat_len_bound)
  have sl: "strlen h (Ptr b off) = Inr len"
    using assms(2-4) by (simp add: strlen_def first_nul_append len_def)
  have "copy_loop (Ptr b off) Null len 0 h 0 = Inl NullDeref \<or>
      copy_loop (Ptr b off) Null len 0 h 0 = Inr (h, 0)"
  proof (cases "0 < len")
    case True
    then have "unat (len - 1 - 0) = unat len - 1 - unat (0 :: size_t)" and "0 < unat len"
      by unat_arith+
    then have "unat (len - 1 - 0) < length s"
      using ulen by simp
    from load_input [OF assms(2,3) this] True show ?thesis
      by (subst copy_loop.simps) (simp add: store_def)
  next
    case False
    then show ?thesis
      by (subst (2) copy_loop.simps) simp
  qed
  then show ?thesis
    by (auto simp: tee_secure_process_def sl malloc_def store_def)
qed

subsection \<open>Strings as the caller reads them\<close>

lemma c_string_decompose:
  assumes "c_string h p = Some s"
  shows "\<exists>b off rest. p = Ptr b off \<and> b < length h \<and> drop off (h ! b) = s @ 0 # rest \<and> 0 \<notin> set s"
proof -
  from assms obtain b off where p: "p = Ptr b off"
    by (cases p) (simp_all add: c_string_def)
  let ?xs = "drop off (h ! b)"
  from assms p have b: "b < length h" and nul: "0 \<in> set ?xs"
    and s: "s = takeWhile (\<lambda>c. c \<noteq> 0) ?xs"
    by (auto simp: c_string_def split: if_splits)
  from nul have ne: "dropWhile (\<lambda>c. c \<noteq> 0) ?xs \<noteq> []"
    by (auto simp: dropWhile_eq_Nil_conv)
  then have "hd (dropWhile (\<lambda>c. c \<noteq> 0) ?xs) = 0"
    using hd_dropWhile [of "\<lambda>c. c \<noteq> 0" ?xs] by simp
  with ne have "dropWhile (\<lambda>c. c \<noteq> 0) ?xs = 0 # tl (dropWhile (\<lambda>c. c \<noteq> 0) ?xs)"
    by (cases "dropWhile (\<lambda>c. c \<noteq> 0) ?xs") simp_all
  then have "?xs = s @ 0 # tl (dropWhile (\<lambda>c. c \<noteq> 0) ?xs)"
    using takeWhile_dropWhile_id [of "\<lambda>c. c \<noteq> 0" ?xs] s by simp
  moreover have "0 \<notin> set s"
    using s by (auto dest: set_takeWhileD)
  ultimately show ?thesis
    using p b by blast
qed

lemma c_string_compose:
  assumes "b < length h" and "drop off (h ! b) = s @ 0 # rest" and "0 \<notin> set s"
  shows "c_string h (Ptr b off) = Some s"
proof -
  have "takeWhile (\<lambda>c. c \<noteq> 0) (s @ 0 # rest) = s"
    using assms(3) by (induction s) auto
  with assms(1,2) show ?thesis
    by (simp add: c_string_def)
qed

lemma heap_ok_result:
  assumes "heap_ok h" and "b < length h" and "drop off (h ! b) = s @ 0 # rest"
  shows "heap_ok (h @ [rev s @ [0]])"
  using assms(1) block_bound [OF assms] by (simp add: heap_ok_def)

lemma load_result:
  assumes "i < length out"
  shows "load (h @ [out @ [0]]) (Ptr (length h) 0) i = Inr (out ! i)"
  using assms by (simp add: load_def nth_append)

lemma c_string_result: "0 \<notin> set out \<Longrightarrow> c_string (h @ [out @ [0]]) (Ptr (length h) 0) = Some out"
  by (rule c_string_compose [where rest = "[]"]) simp_all

lemma strlen_string:
  assumes "b < length h" and "drop off (h ! b) = s @ 0 # rest" and "0 \<notin> set s"
  shows "strlen h (Ptr b off) = Inr (word_of_nat (length s))"
  using assms by (simp add: strlen_def first_nul_append)

section \<open>The claims\<close>

text \<open>
  In the theorems below a valid input is a pointer \<open>input\<close> into a memory \<open>h\<close> with
  \<open>heap_ok h\<close> where the caller reads a string: \<open>c_string h input = Some s\<close>. The
  payload is \<open>s\<close>, its length \<open>N\<close> is \<open>length s\<close>. The allocation succeeds when the first
  argument is \<open>Some init\<close>; the theorems hold for every first content \<open>init\<close> of the new
  object.
\<close>

text \<open>
  Claim C1. For a valid NUL-terminated input of payload length \<open>N\<close> the call returns, and
  the returned sequence satisfies \<open>output[i] = input[N - 1 - i]\<close> for every index
  \<open>i < N\<close>: reading byte \<open>i\<close> through the returned pointer in the memory after the call
  gives the byte that \<open>input[N - 1 - i]\<close> gave before the call.
\<close>

theorem output_index_reversed:
  assumes "heap_ok h" and "c_string h input = Some s" and "i < length s"
  shows "\<exists>result h' iters.
    tee_secure_process (Some init) h input = Inr (result, h', iters) \<and>
    load h' result i = load h input (length s - 1 - i) \<and>
    load h' result i = Inr (s ! (length s - 1 - i))"
proof -
  from c_string_decompose [OF assms(2)] obtain b off rest
    where input: "input = Ptr b off" and b: "b < length h"
      and blk: "drop off (h ! b) = s @ 0 # rest" and nul: "0 \<notin> set s"
    by blast
  let ?h' = "h @ [rev s @ [0]]"
  have run: "tee_secure_process (Some init) h input = Inr (Ptr (length h) 0, ?h', length s)"
    unfolding input by (rule tee_secure_process_reverses [OF assms(1) b blk nul])
  have "load ?h' (Ptr (length h) 0) i = Inr (rev s ! i)"
    using assms(3) by (simp add: load_result)
  then have out: "load ?h' (Ptr (length h) 0) i = Inr (s ! (length s - 1 - i))"
    using assms(3) by (simp add: rev_nth)
  have "load h input (length s - 1 - i) = Inr (s ! (length s - 1 - i))"
    unfolding input using assms(3) by (intro load_input [OF b blk]) simp
  with run out show ?thesis
    by simp
qed

theorem output_index_reversed_witness:
  "heap_ok [[104, 105, 0]] \<and> c_string [[104, 105, 0]] (Ptr 0 0) = Some [104, 105] \<and>
   (0 :: nat) < length [104 :: byte, 105] \<and>
   (\<exists>result h' iters.
      tee_secure_process (Some (\<lambda>_. 255)) [[104, 105, 0]] (Ptr 0 0) = Inr (result, h', iters) \<and>
      load h' result 0 = load [[104, 105, 0]] (Ptr 0 0) 1 \<and>
      load h' result 0 = Inr 105)"
proof -
  have ok: "heap_ok [[104, 105, 0]]"
    by (simp add: heap_ok_def SIZE_MAX_def)
  have str: "c_string [[104, 105, 0]] (Ptr 0 0) = Some [104, 105]"
    by (simp add: c_string_def)
  have i: "(0 :: nat) < length [104 :: byte, 105]"
    by simp
  from output_index_reversed [OF ok str i, of "\<lambda>_. 255"] ok str i show ?thesis
    by simp
qed

text \<open>
  Claim C2. For a valid input the payload length of the output equals the payload length
  of the input: the string the caller reads through the returned pointer has the length
  of the input payload, and \<open>strlen\<close> of the output is \<open>strlen\<close> of the input.
\<close>

theorem output_length_preserved:
  assumes "heap_ok h" and "c_string h input = Some s"
  shows "\<exists>result h' iters out.
    tee_secure_process (Some init) h input = Inr (result, h', iters) \<and>
    c_string h' result = Some out \<and> length out = length s \<and>
    strlen h' result = strlen h input"
proof -
  from c_string_decompose [OF assms(2)] obtain b off rest
    where input: "input = Ptr b off" and b: "b < length h"
      and blk: "drop off (h ! b) = s @ 0 # rest" and nul: "0 \<notin> set s"
    by blast
  let ?h' = "h @ [rev s @ [0]]"
  have run: "tee_secure_process (Some init) h input = Inr (Ptr (length h) 0, ?h', length s)"
    unfolding input by (rule tee_secure_process_reverses [OF assms(1) b blk nul])
  have out: "c_string ?h' (Ptr (length h) 0) = Some (rev s)"
    using nul by (simp add: c_string_result)
  have "strlen ?h' (Ptr (length h) 0) = Inr (word_of_nat (length (rev s)))"
    using nul by (intro strlen_string [where rest = "[]"]) simp_all
  moreover have "strlen h input = Inr (word_of_nat (length s))"
    unfolding input by (rule strlen_string [OF b blk nul])
  ultimately have "strlen ?h' (Ptr (length h) 0) = strlen h input"
    by simp
  with run out show ?thesis
    by simp
qed

theorem output_length_preserved_witness:
  "heap_ok [[104, 105, 0]] \<and> c_string [[104, 105, 0]] (Ptr 0 0) = Some [104, 105] \<and>
   (\<exists>result h' iters out.
      tee_secure_process (Some (\<lambda>_. 255)) [[104, 105, 0]] (Ptr 0 0) = Inr (result, h', iters) \<and>
      c_string h' result = Some out \<and> length out = 2 \<and>
      strlen h' result = Inr 2)"
proof -
  have ok: "heap_ok [[104, 105, 0]]"
    by (simp add: heap_ok_def SIZE_MAX_def)
  have str: "c_string [[104, 105, 0]] (Ptr 0 0) = Some [104, 105]"
    by (simp add: c_string_def)
  have "strlen [[104, 105, 0]] (Ptr 0 0) = Inr 2"
    by (simp add: strlen_def)
  with output_length_preserved [OF ok str, of "\<lambda>_. 255"] ok str show ?thesis
    by (simp add: numeral_2_eq_2)
qed

text \<open>
  Claim C3. Involution: calling the function on a valid input and then on the string it
  returned gives a string bytewise equal to the payload of the first input, whatever
  the two allocations held at first.
\<close>

theorem reverse_involution:
  assumes "heap_ok h" and "c_string h input = Some s"
  shows "\<exists>r1 h1 k1 r2 h2 k2.
    tee_secure_process (Some init1) h input = Inr (r1, h1, k1) \<and>
    tee_secure_process (Some init2) h1 r1 = Inr (r2, h2, k2) \<and>
    c_string h2 r2 = Some s"
proof -
  from c_string_decompose [OF assms(2)] obtain b off rest
    where input: "input = Ptr b off" and b: "b < length h"
      and blk: "drop off (h ! b) = s @ 0 # rest" and nul: "0 \<notin> set s"
    by blast
  let ?h1 = "h @ [rev s @ [0]]"
  let ?r1 = "Ptr (length h) 0"
  have first: "tee_secure_process (Some init1) h input = Inr (?r1, ?h1, length s)"
    unfolding input by (rule tee_secure_process_reverses [OF assms(1) b blk nul])
  have ok1: "heap_ok ?h1"
    by (rule heap_ok_result [OF assms(1) b blk])
  have "tee_secure_process (Some init2) ?h1 ?r1 =
      Inr (Ptr (length ?h1) 0, ?h1 @ [rev (rev s) @ [0]], length (rev s))"
    using nul by (intro tee_secure_process_reverses [OF ok1, where rest = "[]"]) simp_all
  then have second: "tee_secure_process (Some init2) ?h1 ?r1 =
      Inr (Ptr (length ?h1) 0, ?h1 @ [s @ [0]], length s)"
    by simp
  have "c_string (?h1 @ [s @ [0]]) (Ptr (length ?h1) 0) = Some s"
    using nul by (rule c_string_result)
  with first second show ?thesis
    by blast
qed

theorem reverse_involution_witness:
  "heap_ok [[104, 105, 0]] \<and> c_string [[104, 105, 0]] (Ptr 0 0) = Some [104, 105] \<and>
   (\<exists>r1 h1 k1 r2 h2 k2.
      tee_secure_process (Some (\<lambda>_. 255)) [[104, 105, 0]] (Ptr 0 0) = Inr (r1, h1, k1) \<and>
      tee_secure_process (Some (\<lambda>_. 7)) h1 r1 = Inr (r2, h2, k2) \<and>
      c_string h2 r2 = Some [104, 105])"
proof -
  have ok: "heap_ok [[104, 105, 0]]"
    by (simp add: heap_ok_def SIZE_MAX_def)
  have str: "c_string [[104, 105, 0]] (Ptr 0 0) = Some [104, 105]"
    by (simp add: c_string_def)
  from reverse_involution [OF ok str, of "\<lambda>_. 255" "\<lambda>_. 7"] ok str show ?thesis
    by simp
qed

text \<open>
  What the function does on a valid input, for both results of \<open>malloc\<close>: it fails
  only when the allocation failed, and then with a write through the null pointer.
\<close>

lemma failure_only_without_memory:
  assumes "heap_ok h" and "c_string h input = Some s"
  shows "tee_secure_process env h input =
    (case env of
       None \<Rightarrow> Inl NullDeref
     | Some init \<Rightarrow> Inr (Ptr (length h) 0, h @ [rev s @ [0]], length s))"
proof -
  from c_string_decompose [OF assms(2)] obtain b off rest
    where input: "input = Ptr b off" and b: "b < length h"
      and blk: "drop off (h ! b) = s @ 0 # rest" and nul: "0 \<notin> set s"
    by blast
  show ?thesis
  proof (cases env)
    case None
    then show ?thesis
      unfolding input by (simp add: tee_secure_process_no_memory [OF assms(1) b blk nul])
  next
    case (Some init)
    then show ?thesis
      unfolding input by (simp add: tee_secure_process_reverses [OF assms(1) b blk nul])
  qed
qed

text \<open>
  Claim C4. The only possible failure is an allocation failure, and a failed allocation
  is signalled to the caller as an allocation error, with no output returned and no
  side effect the caller can see. The first half holds (\<open>failure_only_without_memory\<close>).
  The second does not: the source uses the pointer it gets from \<open>malloc\<close> without
  testing it, so after a failed allocation it writes through the null pointer (at
  \<open>result[0]\<close> in the loop, or at \<open>result[len]\<close> when the input is empty), which is
  undefined behaviour and not an error the caller receives. The theorem evaluates the
  function on the strings \<open>"ab"\<close> and \<open>""\<close> with a failing \<open>malloc\<close>.
\<close>

theorem malloc_failure_null_write:
  "tee_secure_process None [[97, 98, 0]] (Ptr 0 0) = Inl NullDeref \<and>
   tee_secure_process None [[0]] (Ptr 0 0) = Inl NullDeref"
  by (simp add: tee_secure_process_def strlen_def malloc_def copy_loop.simps load_def store_def)

text \<open>
  Claim C5. For a valid input the function does not modify the input and reads or writes
  no global state. Written: the memory after the call is the memory before it with one
  new object at its end, so every object that existed (the input's and every global)
  holds the bytes it held, and the caller reads the same string at \<open>input\<close>. Read: the
  new object and the count of iterations are the same in every other memory \<open>g\<close> that
  holds the same bytes in the input's object, whatever its other objects hold and
  whatever the allocation holds at first.
\<close>

theorem input_unchanged:
  assumes "heap_ok h" and "c_string h (Ptr b off) = Some s"
  shows "\<exists>blk iters.
    tee_secure_process (Some init) h (Ptr b off) = Inr (Ptr (length h) 0, h @ [blk], iters) \<and>
    c_string (h @ [blk]) (Ptr b off) = Some s \<and>
    (\<forall>g init'. heap_ok g \<and> b < length g \<and> g ! b = h ! b \<longrightarrow>
       tee_secure_process (Some init') g (Ptr b off) = Inr (Ptr (length g) 0, g @ [blk], iters))"
proof -
  from c_string_decompose [OF assms(2)] obtain rest
    where b: "b < length h" and blk: "drop off (h ! b) = s @ 0 # rest" and nul: "0 \<notin> set s"
    by blast
  let ?blk = "rev s @ [0]"
  have run: "tee_secure_process (Some init) h (Ptr b off) = Inr (Ptr (length h) 0, h @ [?blk], length s)"
    by (rule tee_secure_process_reverses [OF assms(1) b blk nul])
  have same: "c_string (h @ [?blk]) (Ptr b off) = Some s"
    using b blk nul by (intro c_string_compose [where rest = rest]) (simp_all add: nth_append)
  have other: "tee_secure_process (Some init') g (Ptr b off) = Inr (Ptr (length g) 0, g @ [?blk], length s)"
    if "heap_ok g" and "b < length g" and "g ! b = h ! b" for g init'
    using that blk nul by (intro tee_secure_process_reverses [where rest = rest]) simp_all
  from run same other show ?thesis
    by blast
qed

theorem input_unchanged_witness:
  "heap_ok [[104, 105, 0]] \<and> c_string [[104, 105, 0]] (Ptr 0 0) = Some [104, 105] \<and>
   (\<exists>blk iters.
      tee_secure_process (Some (\<lambda>_. 255)) [[104, 105, 0]] (Ptr 0 0) =
        Inr (Ptr 1 0, [[104, 105, 0], blk], iters) \<and>
      c_string [[104, 105, 0], blk] (Ptr 0 0) = Some [104, 105] \<and>
      tee_secure_process (Some (\<lambda>_. 7)) [[104, 105, 0], [1, 2, 3]] (Ptr 0 0) =
        Inr (Ptr 2 0, [[104, 105, 0], [1, 2, 3], blk], iters))"
proof -
  have ok: "heap_ok [[104, 105, 0]]"
    by (simp add: heap_ok_def SIZE_MAX_def)
  have str: "c_string [[104, 105, 0]] (Ptr 0 0) = Some [104, 105]"
    by (simp add: c_string_def)
  have other: "heap_ok [[104, 105, 0], [1, 2, 3]]"
    by (simp add: heap_ok_def SIZE_MAX_def)
  from input_unchanged [OF ok str, of "\<lambda>_. 255"] obtain blk iters where
    "tee_secure_process (Some (\<lambda>_. 255)) [[104, 105, 0]] (Ptr 0 0) =
        Inr (Ptr 1 0, [[104, 105, 0], blk], iters)"
    "c_string [[104, 105, 0], blk] (Ptr 0 0) = Some [104, 105]"
    "\<forall>g init'. heap_ok g \<and> 0 < length g \<and> g ! 0 = [104, 105, 0] \<longrightarrow>
       tee_secure_process (Some init') g (Ptr 0 0) = Inr (Ptr (length g) 0, g @ [blk], iters)"
    by auto
  moreover from this(3) other
  have "tee_secure_process (Some (\<lambda>_. 7)) [[104, 105, 0], [1, 2, 3]] (Ptr 0 0) =
      Inr (Ptr 2 0, [[104, 105, 0], [1, 2, 3], blk], iters)"
    by (auto simp: numeral_2_eq_2)
  ultimately show ?thesis
    using ok str by blast
qed

text \<open>
  Claim C6. For the empty input (payload length 0) the function returns an empty output,
  a zero-length owned sequence and not a null or absent value: the returned pointer is
  not null and is not the input, it points to the start of a new object, one that did
  not exist before the call and that the call adds to the memory, leaving every object
  that existed as it was. The new object holds the single byte NUL, so the caller reads
  the empty string there. The loop body is not executed.
\<close>

theorem empty_input:
  assumes "heap_ok h" and "c_string h input = Some []"
  shows "tee_secure_process (Some init) h input = Inr (Ptr (length h) 0, h @ [[0]], 0) \<and>
    Ptr (length h) 0 \<noteq> Null \<and> Ptr (length h) 0 \<noteq> input \<and>
    c_string h (Ptr (length h) 0) = None \<and>
    c_string (h @ [[0]]) (Ptr (length h) 0) = Some []"
proof -
  from c_string_decompose [OF assms(2)] obtain b off rest
    where input: "input = Ptr b off" and b: "b < length h"
      and blk: "drop off (h ! b) = [] @ 0 # rest"
    by blast
  have "tee_secure_process (Some init) h input =
      Inr (Ptr (length h) 0, h @ [rev [] @ [0]], length ([] :: byte list))"
    unfolding input by (rule tee_secure_process_reverses [OF assms(1) b blk]) simp
  then have run: "tee_secure_process (Some init) h input = Inr (Ptr (length h) 0, h @ [[0]], 0)"
    by simp
  have fresh: "Ptr (length h) 0 \<noteq> input"
    using input b by simp
  have absent: "c_string h (Ptr (length h) 0) = None"
    by (simp add: c_string_def)
  have "c_string (h @ [[] @ [0]]) (Ptr (length h) 0) = Some []"
    by (rule c_string_result) simp
  then have "c_string (h @ [[0]]) (Ptr (length h) 0) = Some []"
    by simp
  with run fresh absent show ?thesis
    by simp
qed

theorem empty_input_witness:
  "heap_ok [[0, 7]] \<and> c_string [[0, 7]] (Ptr 0 0) = Some [] \<and>
   tee_secure_process (Some (\<lambda>_. 255)) [[0, 7]] (Ptr 0 0) = Inr (Ptr 1 0, [[0, 7], [0]], 0) \<and>
   Ptr 1 0 \<noteq> Null \<and> Ptr 1 0 \<noteq> Ptr 0 0 \<and>
   c_string [[0, 7]] (Ptr 1 0) = None \<and>
   c_string [[0, 7], [0]] (Ptr 1 0) = Some []"
proof -
  have ok: "heap_ok [[0, 7]]"
    by (simp add: heap_ok_def SIZE_MAX_def)
  have str: "c_string [[0, 7]] (Ptr 0 0) = Some []"
    by (simp add: c_string_def)
  from empty_input [OF ok str, of "\<lambda>_. 255"] ok str show ?thesis
    by simp
qed



text \<open>
  Claim C8. The payload length the function uses is the number of bytes before the first
  NUL, and the NUL is never reversed into the interior of the output: when the object
  holds \<open>pre\<close>, then \<open>s\<close> without a NUL, then a NUL, then any bytes \<open>rest\<close> (more NULs
  among them or not), and the input points at the start of \<open>s\<close>, then \<open>strlen\<close> is the
  length of \<open>s\<close>, the loop runs that many times, and the new object holds the reversal of
  \<open>s\<close> and one NUL after it; nothing of \<open>rest\<close> is read into it.
\<close>

theorem embedded_nul_prefix:
  assumes "heap_ok h" and "b < length h" and "h ! b = pre @ s @ 0 # rest" and "0 \<notin> set s"
  shows "\<exists>len.
    strlen h (Ptr b (length pre)) = Inr len \<and> unat len = length s \<and>
    tee_secure_process (Some init) h (Ptr b (length pre)) =
      Inr (Ptr (length h) 0, h @ [rev s @ [0]], length s) \<and>
    0 \<notin> set (rev s)"
proof -
  from assms(3) have blk: "drop (length pre) (h ! b) = s @ 0 # rest"
    by simp
  have "strlen h (Ptr b (length pre)) = Inr (word_of_nat (length s))"
    by (rule strlen_string [OF assms(2) blk assms(4)])
  moreover from block_bound [OF assms(1,2) blk]
  have "unat (word_of_nat (length s) :: size_t) = length s"
    by (simp add: unat_len_bound)
  moreover have "tee_secure_process (Some init) h (Ptr b (length pre)) =
      Inr (Ptr (length h) 0, h @ [rev s @ [0]], length s)"
    by (rule tee_secure_process_reverses [OF assms(1,2) blk assms(4)])
  ultimately show ?thesis
    using assms(4) by simp
qed

theorem embedded_nul_prefix_witness:
  "heap_ok [[9, 1, 2, 0, 3, 0]] \<and> (0 :: nat) < length [[9 :: byte, 1, 2, 0, 3, 0]] \<and>
   [[9, 1, 2, 0, 3, 0]] ! 0 = [9] @ [1, 2] @ 0 # [3, 0 :: byte] \<and> (0 :: byte) \<notin> set [1, 2] \<and>
   (\<exists>len.
      strlen [[9, 1, 2, 0, 3, 0]] (Ptr 0 1) = Inr len \<and> unat len = 2 \<and>
      tee_secure_process (Some (\<lambda>_. 255)) [[9, 1, 2, 0, 3, 0]] (Ptr 0 1) =
        Inr (Ptr 1 0, [[9, 1, 2, 0, 3, 0], [2, 1, 0]], 2) \<and>
      (0 :: byte) \<notin> set [2, 1])"
proof -
  have ok: "heap_ok [[9, 1, 2, 0, 3, 0]]"
    by (simp add: heap_ok_def SIZE_MAX_def)
  have b: "(0 :: nat) < length [[9 :: byte, 1, 2, 0, 3, 0]]"
    by simp
  have blk: "[[9, 1, 2, 0, 3, 0]] ! 0 = [9] @ [1, 2] @ 0 # [3, 0 :: byte]"
    by simp
  have nul: "(0 :: byte) \<notin> set [1, 2]"
    by simp
  from embedded_nul_prefix [OF ok b blk nul, of "\<lambda>_. 255"] ok show ?thesis
    by (simp add: numeral_2_eq_2)
qed

text \<open>
  Claim C9. Determinism: two calls on inputs of equal byte content return payloads that
  are bytewise equal, also when the two inputs lie at different places of different
  memories and the two allocations held different bytes at first.
\<close>

theorem deterministic_payload:
  assumes "heap_ok h1" and "heap_ok h2"
    and "c_string h1 p1 = Some s" and "c_string h2 p2 = Some s"
  shows "\<exists>r1 g1 k1 r2 g2 k2.
    tee_secure_process (Some init1) h1 p1 = Inr (r1, g1, k1) \<and>
    tee_secure_process (Some init2) h2 p2 = Inr (r2, g2, k2) \<and>
    c_string g1 r1 = c_string g2 r2 \<and> c_string g1 r1 = Some (rev s)"
proof -
  from c_string_decompose [OF assms(3)] obtain b1 off1 rest1
    where p1: "p1 = Ptr b1 off1" and b1: "b1 < length h1"
      and blk1: "drop off1 (h1 ! b1) = s @ 0 # rest1" and nul: "0 \<notin> set s"
    by blast
  from c_string_decompose [OF assms(4)] obtain b2 off2 rest2
    where p2: "p2 = Ptr b2 off2" and b2: "b2 < length h2"
      and blk2: "drop off2 (h2 ! b2) = s @ 0 # rest2"
    by blast
  have run1: "tee_secure_process (Some init1) h1 p1 =
      Inr (Ptr (length h1) 0, h1 @ [rev s @ [0]], length s)"
    unfolding p1 by (rule tee_secure_process_reverses [OF assms(1) b1 blk1 nul])
  have run2: "tee_secure_process (Some init2) h2 p2 =
      Inr (Ptr (length h2) 0, h2 @ [rev s @ [0]], length s)"
    unfolding p2 by (rule tee_secure_process_reverses [OF assms(2) b2 blk2 nul])
  have "c_string (h1 @ [rev s @ [0]]) (Ptr (length h1) 0) = Some (rev s)"
    and "c_string (h2 @ [rev s @ [0]]) (Ptr (length h2) 0) = Some (rev s)"
    using nul by (simp_all add: c_string_result)
  with run1 run2 show ?thesis
    by simp
qed

theorem deterministic_payload_witness:
  "heap_ok [[104, 105, 0]] \<and> heap_ok [[7], [1, 104, 105, 0, 9]] \<and>
   c_string [[104, 105, 0]] (Ptr 0 0) = Some [104, 105] \<and>
   c_string [[7], [1, 104, 105, 0, 9]] (Ptr 1 1) = Some [104, 105] \<and>
   (\<exists>r1 g1 k1 r2 g2 k2.
      tee_secure_process (Some (\<lambda>_. 255)) [[104, 105, 0]] (Ptr 0 0) = Inr (r1, g1, k1) \<and>
      tee_secure_process (Some (\<lambda>_. 7)) [[7], [1, 104, 105, 0, 9]] (Ptr 1 1) = Inr (r2, g2, k2) \<and>
      c_string g1 r1 = c_string g2 r2 \<and> c_string g1 r1 = Some [105, 104])"
proof -
  have ok1: "heap_ok [[104, 105, 0]]" and ok2: "heap_ok [[7], [1, 104, 105, 0, 9]]"
    by (simp_all add: heap_ok_def SIZE_MAX_def)
  have str1: "c_string [[104, 105, 0]] (Ptr 0 0) = Some [104, 105]"
    by (simp add: c_string_def)
  have str2: "c_string [[7], [1, 104, 105, 0, 9]] (Ptr 1 1) = Some [104, 105]"
    by (simp add: c_string_def)
  from deterministic_payload [OF ok1 ok2 str1 str2, of "\<lambda>_. 255" "\<lambda>_. 7"] ok1 ok2 str1 str2
  show ?thesis
    by simp
qed

text \<open>
  Claim C10. The function terminates on every valid NUL-terminated input, and its only
  loop runs exactly \<open>N\<close> times for payload length \<open>N\<close>. \<open>copy_loop\<close> is a total function
  (its recursion descends along \<open>unat len - unat i\<close>), the call returns a value, and the
  count of executed loop bodies it returns is \<open>N\<close>.
\<close>

theorem loop_iterations:
  assumes "heap_ok h" and "c_string h input = Some s"
  shows "\<exists>result h'. tee_secure_process (Some init) h input = Inr (result, h', length s)"
proof -
  from c_string_decompose [OF assms(2)] obtain b off rest
    where input: "input = Ptr b off" and b: "b < length h"
      and blk: "drop off (h ! b) = s @ 0 # rest" and nul: "0 \<notin> set s"
    by blast
  have "tee_secure_process (Some init) h input =
      Inr (Ptr (length h) 0, h @ [rev s @ [0]], length s)"
    unfolding input by (rule tee_secure_process_reverses [OF assms(1) b blk nul])
  then show ?thesis
    by simp
qed

theorem loop_iterations_witness:
  "heap_ok [[104, 105, 0]] \<and> c_string [[104, 105, 0]] (Ptr 0 0) = Some [104, 105] \<and>
   (\<exists>result h'. tee_secure_process (Some (\<lambda>_. 255)) [[104, 105, 0]] (Ptr 0 0) = Inr (result, h', 2))"
proof -
  have ok: "heap_ok [[104, 105, 0]]"
    by (simp add: heap_ok_def SIZE_MAX_def)
  have str: "c_string [[104, 105, 0]] (Ptr 0 0) = Some [104, 105]"
    by (simp add: c_string_def)
  from loop_iterations [OF ok str, of "\<lambda>_. 255"] ok str show ?thesis
    by (simp add: numeral_2_eq_2)
qed

end
